theory Spec2Isabelle
  imports Main "HOL-Library.AList"
begin

section \<open>Values, dictionaries and the object store\<close>

text \<open>
  The context manager of \<^verbatim>\<open>src/core/context.py\<close> works on Python dictionaries, which
  are mutable objects handled by reference: \<^verbatim>\<open>target[key] = value\<close> stores a reference to
  \<^verbatim>\<open>value\<close>, not a copy. The model therefore keeps every dictionary in an explicit store
  and a dictionary value is the address of its cell. A dictionary is an association list
  in insertion order with distinct keys; assigning to a present key keeps its position and
  a new key goes to the end, as in Python.

  Sequences are never entered by the merge (only \<^verbatim>\<open>isinstance(..., dict)\<close> values are) nor
  by the lookup (indexing one with a string key is a \<^verbatim>\<open>TypeError\<close>), so they are carried as
  immutable literal values.
\<close>

type_synonym addr = nat

datatype jval =
    JNull
  | JBool bool
  | JInt int
  | JStr string
  | JList "jval list"
  | JDict "(string \<times> jval) list"

datatype val =
    VNone
  | VBool bool
  | VInt int
  | VStr string
  | VList "jval list"
  | VDict addr

type_synonym dict = "(string \<times> val) list"

type_synonym heap = "dict list"

datatype error =
    KeyError
  | TypeError
  | RuntimeError
  | RecursionError
  | ValidationError val
  | DecodeError string
  | OSError string
  | FileNotFoundError string
  | ValueError string

fun is_dict :: "val \<Rightarrow> bool" where
  "is_dict (VDict a) = True"
| "is_dict v = False"

text \<open>
  Evaluating a dictionary literal: every nested mapping gets a fresh cell at the end of
  the store; a repeated key keeps its first position and its last value.
\<close>

fun alloc :: "jval \<Rightarrow> heap \<Rightarrow> val \<times> heap"
  and alloc_items :: "(string \<times> jval) list \<Rightarrow> dict \<Rightarrow> heap \<Rightarrow> dict \<times> heap" where
  "alloc JNull h = (VNone, h)"
| "alloc (JBool b) h = (VBool b, h)"
| "alloc (JInt i) h = (VInt i, h)"
| "alloc (JStr s) h = (VStr s, h)"
| "alloc (JList xs) h = (VList xs, h)"
| "alloc (JDict kvs) h =
     (case alloc_items kvs [] h of (d, h1) \<Rightarrow> (VDict (length h1), h1 @ [d]))"
| "alloc_items [] acc h = (acc, h)"
| "alloc_items (kv # kvs) acc h =
     (case alloc (snd kv) h of (v, h1) \<Rightarrow> alloc_items kvs (AList.update (fst kv) v acc) h1)"

text \<open>
  Reading a value back out of the store as a literal (what \<^verbatim>\<open>json.dumps\<close> or a deep copy
  would see at that moment). The fuel bounds the nesting depth that is followed.
\<close>

fun snapshot :: "nat \<Rightarrow> heap \<Rightarrow> val \<Rightarrow> jval option" where
  "snapshot f h VNone = Some JNull"
| "snapshot f h (VBool b) = Some (JBool b)"
| "snapshot f h (VInt i) = Some (JInt i)"
| "snapshot f h (VStr s) = Some (JStr s)"
| "snapshot f h (VList xs) = Some (JList xs)"
| "snapshot 0 h (VDict a) = None"
| "snapshot (Suc f) h (VDict a) =
     map_option JDict
       (those (map (\<lambda>kv. map_option (Pair (fst kv)) (snapshot f h (snd kv))) (h ! a)))"

section \<open>The context manager\<close>

record ContextSource =
  name :: string
  content :: addr
  priority :: int
  source_type :: string
  metadata :: "(string \<times> jval) list"

text \<open>
  \<^verbatim>\<open>self.sources\<close> and \<^verbatim>\<open>self.context\<close>, together with the store the references point
  into. The field \<open>context_ref\<close> is \<^verbatim>\<open>self.context\<close>.
\<close>

record ContextManager =
  heap :: heap
  sources :: "ContextSource list"
  context_ref :: addr

text \<open>\<^verbatim>\<open>__init__\<close>: no sources and a new empty dictionary as context.\<close>

definition init :: "heap \<Rightarrow> ContextManager" where
  "init h = \<lparr>heap = h @ [[]], sources = [], context_ref = length h\<rparr>"

text \<open>
  \<^verbatim>\<open>add_source\<close> appends a \<^verbatim>\<open>ContextSource\<close>. The pydantic model declares
  \<^verbatim>\<open>content: Dict[str, Any]\<close>: validation rejects a value that is not a mapping, and for a
  mapping it builds a new dictionary with the same keys and the same value objects, so the
  stored content is a copy of the top level that shares every nested dictionary with the
  argument. The validation error carries the rejected value. Nothing else is touched:
  \<^verbatim>\<open>self.context\<close> stays as it is.
\<close>

definition add_source ::
  "ContextManager \<Rightarrow> string \<Rightarrow> val \<Rightarrow> int \<Rightarrow> string \<Rightarrow> (string \<times> jval) list
     \<Rightarrow> error + ContextManager" where
  "add_source st nm c prio stype meta =
     (case c of
        VDict a \<Rightarrow>
          Inr (st\<lparr>heap := heap st @ [heap st ! a],
                 sources := sources st @
                 [\<lparr>name = nm, content = length (heap st), priority = prio,
                   source_type = stype, metadata = meta\<rparr>]\<rparr>)
      | _ \<Rightarrow> Inl (ValidationError c))"

text \<open>
  \<^verbatim>\<open>_deep_merge(target, source)\<close>. The condition of the \<^verbatim>\<open>if\<close> is \<open>both_dicts\<close>. The
  \<^verbatim>\<open>for\<close> loop walks the live dictionary \<^verbatim>\<open>source\<close> by position; Python's dictionary
  iterator raises \<^verbatim>\<open>RuntimeError\<close> at its next step when the size of the dictionary has
  changed since the loop began. The first argument of \<open>merge_items\<close> is the recursive
  call; the recursion depth is bounded by the fuel, and running out of it is Python's
  \<^verbatim>\<open>RecursionError\<close>.
\<close>

fun both_dicts :: "val option \<Rightarrow> val \<Rightarrow> (addr \<times> addr) option" where
  "both_dicts (Some (VDict t)) (VDict s) = Some (t, s)"
| "both_dicts old new = None"

fun merge_items ::
  "(heap \<Rightarrow> addr \<Rightarrow> addr \<Rightarrow> error + heap) \<Rightarrow> addr \<Rightarrow> addr \<Rightarrow> nat \<Rightarrow> nat \<Rightarrow> heap
     \<Rightarrow> error + heap" where
  "merge_items rec target source n 0 h =
     (if length (h ! source) \<noteq> n then Inl RuntimeError else Inr h)"
| "merge_items rec target source n (Suc r) h =
     (if length (h ! source) \<noteq> n then Inl RuntimeError
      else
        let key = fst ((h ! source) ! (n - Suc r));
            value = snd ((h ! source) ! (n - Suc r))
        in case both_dicts (map_of (h ! target) key) value of
             Some (t, s) \<Rightarrow>
               (case rec h t s of
                  Inl e \<Rightarrow> Inl e
                | Inr h' \<Rightarrow> merge_items rec target source n r h')
           | None \<Rightarrow>
               merge_items rec target source n r
                 (h[target := AList.update key value (h ! target)]))"

primrec deep_merge :: "nat \<Rightarrow> heap \<Rightarrow> addr \<Rightarrow> addr \<Rightarrow> error + heap" where
  "deep_merge 0 h target source = Inl RecursionError"
| "deep_merge (Suc fuel) h target source =
     merge_items (deep_merge fuel) target source
       (length (h ! source)) (length (h ! source)) h"

text \<open>
  \<^verbatim>\<open>sorted(self.sources, key=lambda x: x.priority, reverse=True)\<close>: descending priority;
  Python's sort is stable and keeps the original order of equal keys also with
  \<^verbatim>\<open>reverse=True\<close>. \<open>sort_key\<close> is a stable insertion sort, here on the negated priority.
\<close>

definition sorted_sources :: "ContextManager \<Rightarrow> ContextSource list" where
  "sorted_sources st = sort_key (\<lambda>x. - priority x) (sources st)"

fun merge_all :: "nat \<Rightarrow> addr \<Rightarrow> ContextSource list \<Rightarrow> heap \<Rightarrow> error + heap" where
  "merge_all fuel merged [] h = Inr h"
| "merge_all fuel merged (s # ss) h =
     (case deep_merge fuel h merged (content s) of
        Inl e \<Rightarrow> Inl e
      | Inr h' \<Rightarrow> merge_all fuel merged ss h')"

text \<open>
  \<^verbatim>\<open>merge_contexts\<close>: \<^verbatim>\<open>merged = {}\<close> is a new cell; every source is merged into it in the
  sorted order; the result becomes \<^verbatim>\<open>self.context\<close> and is returned (as a reference).
\<close>

definition merge_contexts :: "nat \<Rightarrow> ContextManager \<Rightarrow> error + (addr \<times> ContextManager)" where
  "merge_contexts fuel st =
     (let merged = length (heap st) in
      case merge_all fuel merged (sorted_sources st) (heap st @ [[]]) of
        Inl e \<Rightarrow> Inl e
      | Inr h' \<Rightarrow> Inr (merged, st\<lparr>heap := h', context_ref := merged\<rparr>))"

text \<open>
  \<^verbatim>\<open>key.split('.')\<close>: the pieces between the dots; the empty string gives one empty piece.
\<close>

fun split_dot :: "string \<Rightarrow> string list" where
  "split_dot [] = [[]]"
| "split_dot (c # cs) =
     (if c = CHR ''.'' then [] # split_dot cs
      else (case split_dot cs of
              [] \<Rightarrow> [[c]]
            | w # ws \<Rightarrow> (c # w) # ws))"

text \<open>
  The loop \<^verbatim>\<open>for k in keys: value = value[k]\<close>. Indexing a dictionary with an absent key
  raises \<^verbatim>\<open>KeyError\<close>; indexing \<^verbatim>\<open>None\<close>, a number, a boolean, a string or a list with a
  string raises \<^verbatim>\<open>TypeError\<close>.
\<close>

fun walk :: "heap \<Rightarrow> val \<Rightarrow> string list \<Rightarrow> error + val" where
  "walk h v [] = Inr v"
| "walk h (VDict a) (k # ks) =
     (case map_of (h ! a) k of
        None \<Rightarrow> Inl KeyError
      | Some v \<Rightarrow> walk h v ks)"
| "walk h v (k # ks) = Inl TypeError"

text \<open>
  \<^verbatim>\<open>get_context(key, default)\<close>: \<^verbatim>\<open>if not self.context\<close> holds exactly when the context
  dictionary is empty; only then is \<^verbatim>\<open>merge_contexts\<close> run. \<^verbatim>\<open>key is None\<close> is the absent
  path. \<^verbatim>\<open>KeyError\<close> and \<^verbatim>\<open>TypeError\<close> from the walk are caught and give the default.
\<close>

definition get_context ::
  "nat \<Rightarrow> ContextManager \<Rightarrow> string option \<Rightarrow> val \<Rightarrow> error + (val \<times> ContextManager)" where
  "get_context fuel st key dflt =
     (case (if heap st ! context_ref st = []
            then map_sum id snd (merge_contexts fuel st) else Inr st) of
        Inl e \<Rightarrow> Inl e
      | Inr st1 \<Rightarrow>
          (case key of
             None \<Rightarrow> Inr (VDict (context_ref st1), st1)
           | Some p \<Rightarrow>
               (case walk (heap st1) (VDict (context_ref st1)) (split_dot p) of
                  Inr v \<Rightarrow> Inr (v, st1)
                | Inl e \<Rightarrow>
                    if e = KeyError \<or> e = TypeError then Inr (dflt, st1) else Inl e)))"

section \<open>Building concrete stores\<close>

text \<open>
  \<open>add_literal\<close> is a caller that evaluates a dictionary literal and passes it to
  \<^verbatim>\<open>add_source\<close> with the default source type and metadata, as the tests do.
\<close>

definition add_literal :: "string \<Rightarrow> jval \<Rightarrow> int \<Rightarrow> ContextManager \<Rightarrow> ContextManager" where
  "add_literal nm lit prio st =
     (case alloc lit (heap st) of
        (c, h1) \<Rightarrow>
          (case add_source (st\<lparr>heap := h1\<rparr>) nm c prio ''unknown'' [] of
             Inr st' \<Rightarrow> st'
           | Inl e \<Rightarrow> st))"

text \<open>
  \<open>add_object\<close> is a caller that passes a dictionary object it already holds, which may
  share nested dictionaries with other objects of the caller.
\<close>

definition add_object :: "string \<Rightarrow> addr \<Rightarrow> int \<Rightarrow> ContextManager \<Rightarrow> ContextManager" where
  "add_object nm a prio st =
     (case add_source st nm (VDict a) prio ''unknown'' [] of
        Inr st' \<Rightarrow> st'
      | Inl e \<Rightarrow> st)"

text \<open>\<^verbatim>\<open>merge_contexts()[k1][k2]...\<close> and the value of \<^verbatim>\<open>merge_contexts()\<close> read at once.\<close>

definition merge_lookup :: "nat \<Rightarrow> ContextManager \<Rightarrow> string list \<Rightarrow> error + val" where
  "merge_lookup fuel st path =
     (case merge_contexts fuel st of
        Inl e \<Rightarrow> Inl e
      | Inr (m, st') \<Rightarrow> walk (heap st') (VDict m) path)"

definition merge_value :: "nat \<Rightarrow> ContextManager \<Rightarrow> (jval option \<times> ContextManager) option" where
  "merge_value fuel st =
     (case merge_contexts fuel st of
        Inl e \<Rightarrow> None
      | Inr (m, st') \<Rightarrow> Some (snapshot fuel (heap st') (VDict m), st'))"

definition content_value :: "nat \<Rightarrow> ContextManager \<Rightarrow> nat \<Rightarrow> jval option" where
  "content_value fuel st i = snapshot fuel (heap st) (VDict (content (sources st ! i)))"

section \<open>Loading a file\<close>

text \<open>
  The file system, the two parsers and the text of pydantic's messages are outside the
  repository and are parameters. Each call gives its result or the message (\<^verbatim>\<open>str(e)\<close>) of
  the exception it raises.

  \<^item> \<open>path_exists\<close> is \<^verbatim>\<open>Path.exists()\<close>: it answers, or raises an \<^verbatim>\<open>OSError\<close> (a name that
    is too long, a directory that may not be searched).
  \<^item> \<open>read_text\<close> is \<^verbatim>\<open>open(path, 'r')\<close> and the reading of the file: the text, or the
    \<^verbatim>\<open>OSError\<close> or decoding error raised.
  \<^item> \<open>json_load\<close> parses JSON text: the value is a tree, every mapping in it a new object.
  \<^item> \<open>yaml_load\<close> parses YAML text and builds the objects of the document in the store it
    is given: one mapping object stands for an anchor and all its aliases, so the value
    need not be a tree.
  \<^item> \<open>validation_text\<close> is the text of pydantic's validation error for a rejected content
    value.
\<close>

record file_env =
  path_exists :: "string \<Rightarrow> string + bool"
  read_text :: "string \<Rightarrow> string + string"
  json_load :: "string \<Rightarrow> string + jval"
  yaml_load :: "string \<Rightarrow> heap \<Rightarrow> string + (val \<times> heap)"
  absolute :: "string \<Rightarrow> string"
  validation_text :: "val \<Rightarrow> string"

fun split_slash :: "string \<Rightarrow> string list" where
  "split_slash [] = [[]]"
| "split_slash (c # cs) =
     (if c = CHR ''/'' then [] # split_slash cs
      else (case split_slash cs of
              [] \<Rightarrow> [[c]]
            | w # ws \<Rightarrow> (c # w) # ws))"

text \<open>\<^verbatim>\<open>Path(p).name\<close>: the last component, empty and \<^verbatim>\<open>.\<close> components dropped.\<close>

definition path_name :: "string \<Rightarrow> string" where
  "path_name p =
     (case filter (\<lambda>c. c \<noteq> [] \<and> c \<noteq> ''.'') (split_slash p) of
        [] \<Rightarrow> []
      | parts \<Rightarrow> last parts)"

text \<open>
  \<^verbatim>\<open>Path(p).suffix\<close>: with \<^verbatim>\<open>i = name.rfind('.')\<close>, the rest of the name from \<^verbatim>\<open>i\<close> when
  \<^verbatim>\<open>0 < i < len(name) - 1\<close>, the empty string otherwise.
\<close>

definition path_suffix :: "string \<Rightarrow> string" where
  "path_suffix p =
     (let nm = path_name p;
          j = length (takeWhile (\<lambda>c. c \<noteq> CHR ''.'') (rev nm))
      in if j < length nm \<and> 0 < j \<and> 0 < length nm - Suc j
         then drop (length nm - Suc j) nm else [])"

definition lower_char :: "char \<Rightarrow> char" where
  "lower_char c =
     (let n = (of_char c :: nat) in if 65 \<le> n \<and> n \<le> 90 then char_of (n + 32) else c)"

definition lower :: "string \<Rightarrow> string" where
  "lower s = map lower_char s"

text \<open>
  \<^verbatim>\<open>str(e)\<close> for the exceptions that reach the handler of \<^verbatim>\<open>load_from_file\<close>: the body of
  its \<^verbatim>\<open>try\<close> block raises an \<^verbatim>\<open>OSError\<close>, a parser's error, the \<^verbatim>\<open>ValueError\<close> for the suffix
  or a validation error, and no other (\<open>load_body_raises\<close> below).
\<close>

fun str_error :: "(val \<Rightarrow> string) \<Rightarrow> error \<Rightarrow> string" where
  "str_error vt (ValidationError v) = vt v"
| "str_error vt (DecodeError m) = m"
| "str_error vt (OSError m) = m"
| "str_error vt (FileNotFoundError m) = m"
| "str_error vt (ValueError m) = m"
| "str_error vt e = []"

text \<open>The name of the exception class, the kind of an error.\<close>

fun error_kind :: "error \<Rightarrow> string" where
  "error_kind (ValidationError m) = ''ValidationError''"
| "error_kind (DecodeError m) = ''DecodeError''"
| "error_kind (OSError m) = ''OSError''"
| "error_kind (FileNotFoundError m) = ''FileNotFoundError''"
| "error_kind (ValueError m) = ''ValueError''"
| "error_kind KeyError = ''KeyError''"
| "error_kind TypeError = ''TypeError''"
| "error_kind RuntimeError = ''RuntimeError''"
| "error_kind RecursionError = ''RecursionError''"

text \<open>The body of the \<^verbatim>\<open>try\<close> block: choose the parser by suffix, parse, add the source.\<close>

definition load_body ::
  "file_env \<Rightarrow> ContextManager \<Rightarrow> string \<Rightarrow> int \<Rightarrow> error + ContextManager" where
  "load_body env st file_path prio =
     (let suffix = lower (path_suffix file_path);
          parsed =
            (if suffix = ''.json'' then
               (case read_text env file_path of
                  Inl m \<Rightarrow> Inl (OSError m)
                | Inr body \<Rightarrow>
                    (case json_load env body of
                       Inl m \<Rightarrow> Inl (DecodeError m)
                     | Inr lit \<Rightarrow> Inr (alloc lit (heap st))))
             else if suffix = ''.yaml'' \<or> suffix = ''.yml'' then
               (case read_text env file_path of
                  Inl m \<Rightarrow> Inl (OSError m)
                | Inr body \<Rightarrow>
                    (case yaml_load env body (heap st) of
                       Inl m \<Rightarrow> Inl (DecodeError m)
                     | Inr r \<Rightarrow> Inr r))
             else Inl (ValueError (''Unsupported file format: '' @ path_suffix file_path)))
      in case parsed of
           Inl e \<Rightarrow> Inl e
         | Inr (c, h1) \<Rightarrow>
             add_source (st\<lparr>heap := h1\<rparr>) (path_name file_path) c prio ''file''
               [(''path'', JStr (absolute env file_path))])"

text \<open>
  \<^verbatim>\<open>load_from_file\<close>: the existence check stands before the \<^verbatim>\<open>try\<close>, so an \<^verbatim>\<open>OSError\<close> that
  \<^verbatim>\<open>path.exists()\<close> raises leaves the method as it is, and a path that does not exist gives
  the \<^verbatim>\<open>FileNotFoundError\<close>. Every exception of the body, the \<^verbatim>\<open>ValueError\<close> for an
  unsupported suffix included, is caught by \<^verbatim>\<open>except Exception\<close> and raised again as a
  \<^verbatim>\<open>ValueError\<close> around \<^verbatim>\<open>str(e)\<close>.
\<close>

definition load_from_file ::
  "file_env \<Rightarrow> ContextManager \<Rightarrow> string \<Rightarrow> int \<Rightarrow> error + ContextManager" where
  "load_from_file env st file_path prio =
     (case path_exists env file_path of
        Inl m \<Rightarrow> Inl (OSError m)
      | Inr False \<Rightarrow> Inl (FileNotFoundError (''Context file not found: '' @ file_path))
      | Inr True \<Rightarrow>
          (case load_body env st file_path prio of
             Inl e \<Rightarrow>
               Inl (ValueError
                      (''Failed to load context from '' @ file_path @ '': '' @
                       str_error (validation_text env) e))
           | Inr st' \<Rightarrow> Inr st'))"

section \<open>Removing a source\<close>

text \<open>
  Modelled from the spec: \<^verbatim>\<open>remove_source\<close> is called by
  \<^verbatim>\<open>examples/context_management.py\<close> but \<^verbatim>\<open>ContextManager\<close> does not define it. The spec:
  it removes every fragment whose name exactly equals the argument and invalidates the
  cache; no error when no fragment matches. The invalidated cache is the empty context
  dictionary, the state in which \<^verbatim>\<open>get_context\<close> merges again.
\<close>

definition remove_source :: "ContextManager \<Rightarrow> string \<Rightarrow> ContextManager" where
  "remove_source st nm =
     st\<lparr>heap := heap st @ [[]],
        sources := filter (\<lambda>s. name s \<noteq> nm) (sources st),
        context_ref := length (heap st)\<rparr>"

section \<open>Example stores\<close>

definition store_AB :: ContextManager where
  "store_AB =
     add_literal ''B'' (JDict [(''k'', JStr ''B'')]) 1
       (add_literal ''A'' (JDict [(''k'', JStr ''A'')]) 10 (init []))"

definition store_BA :: ContextManager where
  "store_BA =
     add_literal ''A'' (JDict [(''k'', JStr ''A'')]) 10
       (add_literal ''B'' (JDict [(''k'', JStr ''B'')]) 1 (init []))"

definition store_tie :: ContextManager where
  "store_tie =
     add_literal ''B'' (JDict [(''k'', JStr ''B'')]) 5
       (add_literal ''A'' (JDict [(''k'', JStr ''A'')]) 5 (init []))"

definition store_tie_low :: ContextManager where
  "store_tie_low = add_literal ''L'' (JDict [(''k'', JStr ''L'')]) 1 store_tie"

definition store_tie_low_nested :: ContextManager where
  "store_tie_low_nested =
     add_literal ''L'' (JDict [(''c'', JDict [(''k'', JStr ''L'')])]) 1
       (add_literal ''B'' (JDict [(''c'', JDict [(''k'', JStr ''B'')])]) 5
         (add_literal ''A'' (JDict [(''c'', JDict [(''k'', JStr ''A'')])]) 5 (init [])))"

definition store_scalar_over_mapping :: ContextManager where
  "store_scalar_over_mapping =
     add_literal ''source2'' (JDict [(''a'', JInt 5)]) 10
       (add_literal ''source1'' (JDict [(''a'', JDict [(''b'', JInt 1)])]) 0 (init []))"

definition store_shared :: ContextManager where
  "store_shared =
     add_literal ''user_prefs'' (JDict [(''a'', JDict [(''c'', JInt 2)])]) 0
       (add_literal ''defaults'' (JDict [(''a'', JDict [(''b'', JInt 1)])]) 10 (init []))"

definition store_four :: ContextManager where
  "store_four =
     add_literal ''s4'' (JDict [(''a'', JDict [(''j'', JDict [(''q'', JInt 2)])])]) 0
       (add_literal ''s3'' (JDict [(''a'', JDict [(''j'', JInt 7)])]) 1
         (add_literal ''s2'' (JDict [(''a'', JDict [(''j'', JDict [(''p'', JInt 1)])])]) 2
           (add_literal ''s1'' (JDict [(''a'', JDict [])]) 3 (init []))))"

definition store_theme :: ContextManager where
  "store_theme =
     add_literal ''override'' (JDict [(''theme'', JStr ''light'')]) 10
       (add_literal ''s'' (JDict [(''theme'', JStr ''dark'')]) 0 (init []))"

definition store_x :: ContextManager where
  "store_x = add_literal ''first'' (JDict [(''x'', JInt 1)]) 0 (init [])"

text \<open>
  Dictionary objects of a caller: \<^verbatim>\<open>inner = {"q": 1}\<close> at address 0, \<^verbatim>\<open>s = {"j": inner}\<close> at 1,
  \<^verbatim>\<open>{"j": s}\<close> at 2, and the two contents \<^verbatim>\<open>{"k": {"j": s}}\<close> at 3 and \<^verbatim>\<open>{"k": s}\<close> at 4. Every
  key is a string and no dictionary contains itself; \<^verbatim>\<open>s\<close> occurs at depth 2 of the first
  content and at depth 1 of the second. The store has the first content at priority 1 and
  the second at priority 0.
\<close>

definition shared_objects :: heap where
  "shared_objects =
     [[(''q'', VInt 1)], [(''j'', VDict 0)], [(''j'', VDict 1)],
      [(''k'', VDict 2)], [(''k'', VDict 1)]]"

definition store_two_depths :: ContextManager where
  "store_two_depths =
     add_object ''second'' 4 0 (add_object ''first'' 3 1 (init shared_objects))"

text \<open>
  A file system with a text file, a JSON file whose text does not parse, one that parses
  to a list and one that cannot be read; every other path does not exist, and the path of
  300 letters x is too long for the file system.
\<close>

definition env_files :: file_env where
  "env_files =
     \<lparr>path_exists =
        (\<lambda>p. if p = replicate 300 CHR ''x'' then Inl ''[Errno 36] File name too long''
              else Inr (p \<in> {''notes.txt'', ''bad.json'', ''list.json'', ''locked.json''})),
      read_text =
        (\<lambda>p. if p = ''notes.txt'' then Inr ''hello''
              else if p = ''bad.json'' then Inr ''{''
              else if p = ''list.json'' then Inr ''[1]''
              else Inl ''[Errno 13] Permission denied''),
      json_load =
        (\<lambda>t. if t = ''[1]'' then Inr (JList [JInt 1])
              else Inl (''Expecting property name enclosed in double quotes: '' @
                        ''line 1 column 2 (char 1)'')),
      yaml_load = (\<lambda>t h. Inl ''could not parse''),
      absolute = (\<lambda>p. ''/work/'' @ p),
      validation_text = (\<lambda>v. ''1 validation error for ContextSource'')\<rparr>"

section \<open>Layered stores and the value of a merge\<close>

text \<open>
  The stores on which the merge is shown to return. Every dictionary has a nesting level
  below the bound \<open>D\<close>, its keys are distinct, and every dictionary it holds as a value lies
  in the store one level deeper. Dictionaries built from literals and from parsed JSON
  files are of this form, and the merge keeps it; a dictionary that contains itself, or
  that occurs at two different depths (as a caller's shared object or a YAML alias can), is
  not, and on such stores the merge can fail.
\<close>

definition wf_heap :: "(addr \<Rightarrow> nat) \<Rightarrow> nat \<Rightarrow> heap \<Rightarrow> bool" where
  "wf_heap lvl D h \<longleftrightarrow>
     (\<forall>a<length h. lvl a < D \<and> distinct (map fst (h ! a)) \<and>
        (\<forall>k b. map_of (h ! a) k = Some (VDict b) \<longrightarrow> b < length h \<and> lvl b = Suc (lvl a)))"

text \<open>The context and the content of every source are dictionaries of level 0.\<close>

definition wf_store :: "(addr \<Rightarrow> nat) \<Rightarrow> nat \<Rightarrow> ContextManager \<Rightarrow> bool" where
  "wf_store lvl D st \<longleftrightarrow>
     wf_heap lvl D (heap st) \<and>
     context_ref st < length (heap st) \<and> lvl (context_ref st) = 0 \<and>
     (\<forall>s\<in>set (sources st). content s < length (heap st) \<and> lvl (content s) = 0)"

text \<open>
  What one step of the loop of \<^verbatim>\<open>_deep_merge\<close> leaves at a key of the target: the old
  entry stays when the source has no such key or when both values are dictionaries (the
  target keeps its own dictionary object, which is merged into), and the source's value
  is stored otherwise. \<open>top_level\<close> folds this over the sources in merge order.
\<close>

fun merged_entry :: "val option \<Rightarrow> val option \<Rightarrow> val option" where
  "merged_entry old None = old"
| "merged_entry old (Some v) = (case both_dicts old v of Some p \<Rightarrow> old | None \<Rightarrow> Some v)"

definition top_level :: "heap \<Rightarrow> string \<Rightarrow> ContextSource list \<Rightarrow> val option" where
  "top_level h k ss = foldl (\<lambda>old s. merged_entry old (map_of (h ! content s) k)) None ss"

text \<open>
  A path misses a value when, at some segment, the current value is not a dictionary or
  the dictionary has no such key.
\<close>

fun path_misses :: "heap \<Rightarrow> val \<Rightarrow> string list \<Rightarrow> bool" where
  "path_misses h v [] = False"
| "path_misses h (VDict a) (k # ks) =
     (case map_of (h ! a) k of
        None \<Rightarrow> True
      | Some v \<Rightarrow> path_misses h v ks)"
| "path_misses h v (k # ks) = True"

text \<open>
  How the store changes when a literal is evaluated: cells are only added, and every old
  cell keeps its content and its level. \<open>refs_at\<close> says that a dictionary has distinct keys
  and that the dictionaries it holds lie in the store at the given level.
\<close>

definition grows :: "(addr \<Rightarrow> nat) \<Rightarrow> heap \<Rightarrow> (addr \<Rightarrow> nat) \<Rightarrow> heap \<Rightarrow> bool" where
  "grows lvl h lvl' h' \<longleftrightarrow>
     length h \<le> length h' \<and> (\<forall>a<length h. lvl' a = lvl a \<and> h' ! a = h ! a)"

definition refs_at :: "(addr \<Rightarrow> nat) \<Rightarrow> heap \<Rightarrow> nat \<Rightarrow> dict \<Rightarrow> bool" where
  "refs_at lvl h l d \<longleftrightarrow>
     distinct (map fst d) \<and> (\<forall>k b. map_of d k = Some (VDict b) \<longrightarrow> b < length h \<and> lvl b = l)"

section \<open>The merge returns on layered stores\<close>


lemma both_dicts_Some:
  "both_dicts old v = Some (t, s) \<longleftrightarrow> old = Some (VDict t) \<and> v = VDict s"
  by (cases "(old, v)" rule: both_dicts.cases) auto

lemma wf_heapD:
  assumes "wf_heap lvl D h" "a < length h"
  shows "lvl a < D" "distinct (map fst (h ! a))"
    "map_of (h ! a) k = Some (VDict b) \<Longrightarrow> b < length h \<and> lvl b = Suc (lvl a)"
  using assms unfolding wf_heap_def by blast+

lemma nth_map_of:
  assumes "distinct (map fst xs)" "i < length xs"
  shows "map_of xs (fst (xs ! i)) = Some (snd (xs ! i))"
  using assms by (simp add: nth_mem)

lemma key_notin_drop:
  assumes "distinct (map fst xs)" "i < length xs"
  shows "fst (xs ! i) \<notin> fst ` set (drop (Suc i) xs)"
proof -
  have "xs = take i xs @ xs ! i # drop (Suc i) xs"
    using assms(2) by (simp add: id_take_nth_drop)
  then have "distinct (map fst (take i xs @ xs ! i # drop (Suc i) xs))"
    using assms(1) by simp
  then show ?thesis by auto
qed

lemma wf_heap_update:
  assumes wf: "wf_heap lvl D h" and t: "t < length h"
    and v: "\<And>b. v = VDict b \<Longrightarrow> b < length h \<and> lvl b = Suc (lvl t)"
  shows "wf_heap lvl D (h[t := AList.update k v (h ! t)])"
  unfolding wf_heap_def
proof (intro allI impI)
  fix a assume a: "a < length (h[t := AList.update k v (h ! t)])"
  then have a': "a < length h" by simp
  show "lvl a < D \<and> distinct (map fst (h[t := AList.update k v (h ! t)] ! a)) \<and>
        (\<forall>k' b. map_of (h[t := AList.update k v (h ! t)] ! a) k' = Some (VDict b) \<longrightarrow>
           b < length (h[t := AList.update k v (h ! t)]) \<and> lvl b = Suc (lvl a))"
  proof (cases "a = t")
    case True
    have d: "distinct (map fst (AList.update k v (h ! t)))"
      using wf_heapD(2)[OF wf t] by (simp add: distinct_update)
    have e: "\<And>k' b. map_of (AList.update k v (h ! t)) k' = Some (VDict b) \<Longrightarrow>
          b < length h \<and> lvl b = Suc (lvl t)"
      using v wf_heapD(3)[OF wf t] by (auto simp: update_conv' split: if_splits)
    show ?thesis using True t d e wf_heapD(1)[OF wf t] by simp
  next
    case False
    then show ?thesis using wf_heapD[OF wf a'] a' by simp
  qed
qed

lemma merge_items_ok:
  assumes rec: "\<And>h t' s'. wf_heap lvl D h \<Longrightarrow> t' < length h \<Longrightarrow> s' < length h \<Longrightarrow>
       lvl t' = Suc (lvl t) \<Longrightarrow> lvl s' = Suc (lvl t) \<Longrightarrow>
       \<exists>h'. rec h t' s' = Inr h' \<and> length h' = length h \<and> wf_heap lvl D h' \<and>
            (\<forall>a<length h. lvl a \<le> lvl t \<longrightarrow> h' ! a = h ! a)"
    and wf: "wf_heap lvl D h" and t: "t < length h" and s: "s < length h"
    and ls: "lvl s = lvl t" and n: "length (h ! s) = n" and r: "r \<le> n"
  shows "\<exists>h'. merge_items rec t s n r h = Inr h' \<and> length h' = length h \<and> wf_heap lvl D h' \<and>
            (\<forall>a<length h. lvl a \<le> lvl t \<and> a \<noteq> t \<longrightarrow> h' ! a = h ! a) \<and>
            (\<forall>k. map_of (h' ! t) k =
                 (if k \<in> fst ` set (drop (n - r) (h ! s))
                  then merged_entry (map_of (h ! t) k) (map_of (h ! s) k)
                  else map_of (h ! t) k))"
  using wf t s n r
proof (induction r arbitrary: h)
  case 0
  then show ?case by simp
next
  case (Suc r)
  let ?i = "n - Suc r"
  let ?key = "fst ((h ! s) ! ?i)"
  let ?sval = "snd ((h ! s) ! ?i)"
  have i: "?i < length (h ! s)" using Suc.prems by simp
  have ds: "distinct (map fst (h ! s))" using wf_heapD(2)[OF Suc.prems(1,3)] .
  have sk: "map_of (h ! s) ?key = Some ?sval" using nth_map_of[OF ds i] .
  have dr: "drop ?i (h ! s) = (h ! s) ! ?i # drop (n - r) (h ! s)"
    using Suc.prems i by (metis Cons_nth_drop_Suc Suc_diff_Suc Suc_le_lessD)
  have notin: "?key \<notin> fst ` set (drop (n - r) (h ! s))"
    using key_notin_drop[OF ds i] Suc.prems by (simp add: Suc_diff_Suc Suc_le_lessD)
  have step: "\<exists>h1. merge_items rec t s n (Suc r) h = merge_items rec t s n r h1 \<and>
      length h1 = length h \<and> wf_heap lvl D h1 \<and> h1 ! s = h ! s \<and>
      (\<forall>a<length h. lvl a \<le> lvl t \<and> a \<noteq> t \<longrightarrow> h1 ! a = h ! a) \<and>
      (\<forall>k. map_of (h1 ! t) k =
           (if k = ?key then merged_entry (map_of (h ! t) k) (Some ?sval)
            else map_of (h ! t) k))"
  proof (cases "both_dicts (map_of (h ! t) ?key) ?sval")
    case None
    let ?h1 = "h[t := AList.update ?key ?sval (h ! t)]"
    have m: "merge_items rec t s n (Suc r) h = merge_items rec t s n r ?h1"
      using None Suc.prems by (simp add: Let_def)
    have v: "\<And>b. ?sval = VDict b \<Longrightarrow> b < length h \<and> lvl b = Suc (lvl t)"
      using wf_heapD(3)[OF Suc.prems(1,3), of ?key] sk ls by simp
    have w: "wf_heap lvl D ?h1" using wf_heap_update[OF Suc.prems(1,2) v] by simp
    have same: "?h1 ! s = h ! s"
    proof (cases "s = t")
      case True
      then have "AList.update ?key ?sval (h ! t) = h ! t"
        using sk by (simp add: update_triv)
      then show ?thesis by simp
    next
      case False
      then show ?thesis by simp
    qed
    have eff: "\<forall>k. map_of (?h1 ! t) k =
           (if k = ?key then merged_entry (map_of (h ! t) k) (Some ?sval)
            else map_of (h ! t) k)"
      using None Suc.prems(2) by (simp add: update_conv')
    show ?thesis
      using m w same eff by (intro exI[of _ ?h1]) simp
  next
    case (Some p)
    obtain t' s' where p: "p = (t', s')" by (cases p)
    have old: "map_of (h ! t) ?key = Some (VDict t')" and new: "?sval = VDict s'"
      using Some p by (simp_all add: both_dicts_Some)
    have t': "t' < length h" "lvl t' = Suc (lvl t)"
      using wf_heapD(3)[OF Suc.prems(1,2) old] by simp_all
    have s': "s' < length h" "lvl s' = Suc (lvl t)"
      using wf_heapD(3)[OF Suc.prems(1,3), of ?key s'] sk new ls by simp_all
    obtain h1 where h1: "rec h t' s' = Inr h1" "length h1 = length h" "wf_heap lvl D h1"
        "\<forall>a<length h. lvl a \<le> lvl t \<longrightarrow> h1 ! a = h ! a"
      using rec[OF Suc.prems(1) t'(1) s'(1) t'(2) s'(2)] by blast
    have m: "merge_items rec t s n (Suc r) h = merge_items rec t s n r h1"
      using Some p h1(1) Suc.prems by (simp add: Let_def)
    have same: "h1 ! s = h ! s" "h1 ! t = h ! t"
      using h1(4) Suc.prems(2,3) ls by simp_all
    have eff: "\<forall>k. map_of (h1 ! t) k =
           (if k = ?key then merged_entry (map_of (h ! t) k) (Some ?sval)
            else map_of (h ! t) k)"
      using same old new by simp
    show ?thesis
      using m h1(2,3,4) same(1) eff by (intro exI[of _ h1]) simp
  qed
  then obtain h1 where h1: "merge_items rec t s n (Suc r) h = merge_items rec t s n r h1"
      "length h1 = length h" "wf_heap lvl D h1" "h1 ! s = h ! s"
      "\<forall>a<length h. lvl a \<le> lvl t \<and> a \<noteq> t \<longrightarrow> h1 ! a = h ! a"
      "\<forall>k. map_of (h1 ! t) k =
           (if k = ?key then merged_entry (map_of (h ! t) k) (Some ?sval)
            else map_of (h ! t) k)"
    by blast
  have "\<exists>h'. merge_items rec t s n r h1 = Inr h' \<and> length h' = length h1 \<and> wf_heap lvl D h' \<and>
            (\<forall>a<length h1. lvl a \<le> lvl t \<and> a \<noteq> t \<longrightarrow> h' ! a = h1 ! a) \<and>
            (\<forall>k. map_of (h' ! t) k =
                 (if k \<in> fst ` set (drop (n - r) (h1 ! s))
                  then merged_entry (map_of (h1 ! t) k) (map_of (h1 ! s) k)
                  else map_of (h1 ! t) k))"
    using Suc.IH[of h1] h1(2,3,4) Suc.prems by simp
  then obtain h' where h': "merge_items rec t s n r h1 = Inr h'" "length h' = length h1"
      "wf_heap lvl D h'"
      "\<forall>a<length h1. lvl a \<le> lvl t \<and> a \<noteq> t \<longrightarrow> h' ! a = h1 ! a"
      "\<forall>k. map_of (h' ! t) k =
                 (if k \<in> fst ` set (drop (n - r) (h1 ! s))
                  then merged_entry (map_of (h1 ! t) k) (map_of (h1 ! s) k)
                  else map_of (h1 ! t) k)"
    by blast
  have frame: "\<forall>a<length h. lvl a \<le> lvl t \<and> a \<noteq> t \<longrightarrow> h' ! a = h ! a"
    using h'(4) h1(2,5) by simp
  have eff: "\<forall>k. map_of (h' ! t) k =
                 (if k \<in> fst ` set (drop (n - Suc r) (h ! s))
                  then merged_entry (map_of (h ! t) k) (map_of (h ! s) k)
                  else map_of (h ! t) k)"
  proof
    fix k
    show "map_of (h' ! t) k =
                 (if k \<in> fst ` set (drop (n - Suc r) (h ! s))
                  then merged_entry (map_of (h ! t) k) (map_of (h ! s) k)
                  else map_of (h ! t) k)"
    proof (cases "k = ?key")
      case True
      then show ?thesis using h'(5) h1(4,6) notin sk dr by simp
    next
      case False
      then show ?thesis using h'(5) h1(4,6) dr by simp
    qed
  qed
  show ?case using h1(1) h'(1,2,3) h1(2) frame eff by simp
qed

lemma deep_merge_ok:
  assumes "wf_heap lvl D h" "t < length h" "s < length h" "lvl s = lvl t" "D \<le> lvl t + f"
  shows "\<exists>h'. deep_merge f h t s = Inr h' \<and> length h' = length h \<and> wf_heap lvl D h' \<and>
            (\<forall>a<length h. lvl a \<le> lvl t \<and> a \<noteq> t \<longrightarrow> h' ! a = h ! a) \<and>
            (\<forall>k. map_of (h' ! t) k = merged_entry (map_of (h ! t) k) (map_of (h ! s) k))"
  using assms
proof (induction f arbitrary: h t s)
  case 0
  then show ?case using wf_heapD(1)[of lvl D h t] by simp
next
  case (Suc f)
  have rec: "\<And>h t' s'. wf_heap lvl D h \<Longrightarrow> t' < length h \<Longrightarrow> s' < length h \<Longrightarrow>
       lvl t' = Suc (lvl t) \<Longrightarrow> lvl s' = Suc (lvl t) \<Longrightarrow>
       \<exists>h'. deep_merge f h t' s' = Inr h' \<and> length h' = length h \<and> wf_heap lvl D h' \<and>
            (\<forall>a<length h. lvl a \<le> lvl t \<longrightarrow> h' ! a = h ! a)"
  proof -
    fix h t' s'
    assume a: "wf_heap lvl D h" "t' < length h" "s' < length h"
       "lvl t' = Suc (lvl t)" "lvl s' = Suc (lvl t)"
    have "D \<le> lvl t' + f" using Suc.prems(5) a(4) by simp
    from Suc.IH[OF a(1,2,3) _ this] a(4,5)
    obtain h' where h': "deep_merge f h t' s' = Inr h'" "length h' = length h"
        "wf_heap lvl D h'" "\<forall>a<length h. lvl a \<le> lvl t' \<and> a \<noteq> t' \<longrightarrow> h' ! a = h ! a"
      by auto
    have "\<forall>a<length h. lvl a \<le> lvl t \<longrightarrow> h' ! a = h ! a"
      using h'(4) a(4) by auto
    then show "\<exists>h'. deep_merge f h t' s' = Inr h' \<and> length h' = length h \<and> wf_heap lvl D h' \<and>
            (\<forall>a<length h. lvl a \<le> lvl t \<longrightarrow> h' ! a = h ! a)"
      using h'(1,2,3) by blast
  qed
  obtain h' where h': "merge_items (deep_merge f) t s (length (h ! s)) (length (h ! s)) h = Inr h'"
      "length h' = length h" "wf_heap lvl D h'"
      "\<forall>a<length h. lvl a \<le> lvl t \<and> a \<noteq> t \<longrightarrow> h' ! a = h ! a"
      "\<forall>k. map_of (h' ! t) k =
                 (if k \<in> fst ` set (drop (length (h ! s) - length (h ! s)) (h ! s))
                  then merged_entry (map_of (h ! t) k) (map_of (h ! s) k)
                  else map_of (h ! t) k)"
    using merge_items_ok[where rec="deep_merge f" and n="length (h ! s)" and r="length (h ! s)",
        OF rec Suc.prems(1,2,3,4) refl order_refl] by blast
  have eff: "\<forall>k. map_of (h' ! t) k = merged_entry (map_of (h ! t) k) (map_of (h ! s) k)"
  proof
    fix k
    show "map_of (h' ! t) k = merged_entry (map_of (h ! t) k) (map_of (h ! s) k)"
    proof (cases "k \<in> fst ` set (h ! s)")
      case True
      then show ?thesis using h'(5) by simp
    next
      case False
      then have "map_of (h ! s) k = None" by (simp add: map_of_eq_None_iff)
      then show ?thesis using h'(5) False by simp
    qed
  qed
  show ?case using h'(1,2,3,4) eff by simp
qed


lemma merge_all_ok:
  assumes "wf_heap lvl D h" "m < length h" "lvl m = 0"
    "\<forall>s\<in>set ss. content s < length h \<and> lvl (content s) = 0 \<and> content s \<noteq> m" "D \<le> f"
  shows "\<exists>h'. merge_all f m ss h = Inr h' \<and> length h' = length h \<and> wf_heap lvl D h' \<and>
            (\<forall>a<length h. lvl a = 0 \<and> a \<noteq> m \<longrightarrow> h' ! a = h ! a) \<and>
            (\<forall>k. map_of (h' ! m) k =
               foldl (\<lambda>old s. merged_entry old (map_of (h ! content s) k)) (map_of (h ! m) k) ss)"
  using assms
proof (induction ss arbitrary: h)
  case Nil
  then show ?case by simp
next
  case (Cons s ss)
  have c: "content s < length h" "lvl (content s) = lvl m" "content s \<noteq> m"
    using Cons.prems(3,4) by simp_all
  have fuel: "D \<le> lvl m + f" using Cons.prems(5) by simp
  obtain h1 where h1: "deep_merge f h m (content s) = Inr h1" "length h1 = length h"
      "wf_heap lvl D h1" "\<forall>a<length h. lvl a \<le> lvl m \<and> a \<noteq> m \<longrightarrow> h1 ! a = h ! a"
      "\<forall>k. map_of (h1 ! m) k = merged_entry (map_of (h ! m) k) (map_of (h ! content s) k)"
    using deep_merge_ok[OF Cons.prems(1,2) c(1,2) fuel] by blast
  have same: "\<forall>a<length h. lvl a = 0 \<and> a \<noteq> m \<longrightarrow> h1 ! a = h ! a"
    using h1(4) Cons.prems(3) by simp
  have rest: "\<forall>x\<in>set ss. content x < length h1 \<and> lvl (content x) = 0 \<and> content x \<noteq> m"
    using Cons.prems(4) h1(2) by simp
  have m1: "m < length h1" using Cons.prems(2) h1(2) by simp
  obtain h' where h': "merge_all f m ss h1 = Inr h'" "length h' = length h1"
      "wf_heap lvl D h'" "\<forall>a<length h1. lvl a = 0 \<and> a \<noteq> m \<longrightarrow> h' ! a = h1 ! a"
      "\<forall>k. map_of (h' ! m) k =
          foldl (\<lambda>old s. merged_entry old (map_of (h1 ! content s) k)) (map_of (h1 ! m) k) ss"
    using Cons.IH[OF h1(3) m1 Cons.prems(3) rest Cons.prems(5)] by blast
  have cells: "\<forall>x\<in>set ss. h1 ! content x = h ! content x"
    using same Cons.prems(4) by simp
  have fold_eq: "\<And>k old. foldl (\<lambda>old s. merged_entry old (map_of (h1 ! content s) k)) old ss =
      foldl (\<lambda>old s. merged_entry old (map_of (h ! content s) k)) old ss"
    using cells by (intro foldl_cong) simp_all
  have eff: "\<forall>k. map_of (h' ! m) k =
      foldl (\<lambda>old s. merged_entry old (map_of (h ! content s) k)) (map_of (h ! m) k) (s # ss)"
    using h'(5) h1(5) fold_eq by simp
  have frame: "\<forall>a<length h. lvl a = 0 \<and> a \<noteq> m \<longrightarrow> h' ! a = h ! a"
    using h'(4) same h1(2) by simp
  show ?case using h1(1,2) h'(1,2,3) frame eff by simp
qed

lemma wf_heap_extend:
  assumes "wf_heap lvl D h" "0 < D"
  shows "wf_heap (lvl(length h := 0)) D (h @ [[]])"
  unfolding wf_heap_def
proof (intro allI impI)
  fix a assume a: "a < length (h @ [[]])"
  show "(lvl(length h := 0)) a < D \<and> distinct (map fst ((h @ [[]]) ! a)) \<and>
        (\<forall>k b. map_of ((h @ [[]]) ! a) k = Some (VDict b) \<longrightarrow>
           b < length (h @ [[]]) \<and> (lvl(length h := 0)) b = Suc ((lvl(length h := 0)) a))"
  proof (cases "a = length h")
    case True
    then show ?thesis using assms(2) by simp
  next
    case False
    then have a': "a < length h" using a by simp
    have cell: "(h @ [[]]) ! a = h ! a" using a' by (simp add: nth_append)
    have refs: "\<And>k b. map_of (h ! a) k = Some (VDict b) \<Longrightarrow>
        b < length (h @ [[]]) \<and> (lvl(length h := 0)) b = Suc ((lvl(length h := 0)) a)"
    proof -
      fix k b assume "map_of (h ! a) k = Some (VDict b)"
      then have "b < length h \<and> lvl b = Suc (lvl a)"
        using wf_heapD(3)[OF assms(1) a'] by blast
      then show "b < length (h @ [[]]) \<and>
          (lvl(length h := 0)) b = Suc ((lvl(length h := 0)) a)"
        using False by simp
    qed
    show ?thesis
      using wf_heapD(1,2)[OF assms(1) a'] False refs cell by simp
  qed
qed

lemma merge_contexts_ok:
  assumes wf: "wf_store lvl D st" and fuel: "D \<le> f"
  shows "\<exists>st'. merge_contexts f st = Inr (length (heap st), st') \<and>
           sources st' = sources st \<and> context_ref st' = length (heap st) \<and>
           length (heap st') = Suc (length (heap st)) \<and>
           wf_store (lvl(length (heap st) := 0)) D st' \<and>
           (\<forall>s\<in>set (sources st). heap st' ! content s = heap st ! content s) \<and>
           (\<forall>k. map_of (heap st' ! context_ref st') k = top_level (heap st) k (sorted_sources st))"
proof -
  let ?h = "heap st" and ?m = "length (heap st)"
  let ?lvl = "lvl(?m := 0)"
  have wfh: "wf_heap lvl D ?h" and ctx: "context_ref st < length ?h"
    and srcs: "\<forall>s\<in>set (sources st). content s < length ?h \<and> lvl (content s) = 0"
    using wf by (simp_all add: wf_store_def)
  have D: "0 < D" using wf_heapD(1)[OF wfh ctx] by simp
  have wf0: "wf_heap ?lvl D (?h @ [[]])" using wf_heap_extend[OF wfh D] .
  have ss: "\<forall>s\<in>set (sorted_sources st).
      content s < length (?h @ [[]]) \<and> ?lvl (content s) = 0 \<and> content s \<noteq> ?m"
    using srcs by (auto simp: sorted_sources_def)
  obtain h' where h': "merge_all f ?m (sorted_sources st) (?h @ [[]]) = Inr h'"
      "length h' = length (?h @ [[]])" "wf_heap ?lvl D h'"
      "\<forall>a<length (?h @ [[]]). ?lvl a = 0 \<and> a \<noteq> ?m \<longrightarrow> h' ! a = (?h @ [[]]) ! a"
      "\<forall>k. map_of (h' ! ?m) k =
          foldl (\<lambda>old s. merged_entry old (map_of ((?h @ [[]]) ! content s) k))
            (map_of ((?h @ [[]]) ! ?m) k) (sorted_sources st)"
  proof -
    have m: "?m < length (?h @ [[]])" "?lvl ?m = 0" by simp_all
    show ?thesis using merge_all_ok[OF wf0 m ss fuel] that by blast
  qed
  let ?st' = "st\<lparr>heap := h', context_ref := ?m\<rparr>"
  have res: "merge_contexts f st = Inr (?m, ?st')"
    using h'(1) by (simp add: merge_contexts_def Let_def)
  have cells: "\<forall>s\<in>set (sources st). h' ! content s = ?h ! content s"
    using h'(4) srcs by (auto simp: nth_append)
  have fold_eq: "\<And>k. foldl (\<lambda>old s. merged_entry old (map_of ((?h @ [[]]) ! content s) k))
            None (sorted_sources st) = top_level ?h k (sorted_sources st)"
    unfolding top_level_def using srcs
    by (intro foldl_cong) (auto simp: sorted_sources_def nth_append)
  have eff: "\<forall>k. map_of (h' ! ?m) k = top_level ?h k (sorted_sources st)"
    using h'(5) fold_eq by simp
  have wf': "wf_store ?lvl D ?st'"
    using h'(2,3) srcs by (auto simp: wf_store_def)
  show ?thesis
    using res h'(2) cells eff wf' by (intro exI[of _ ?st']) simp
qed

subsection \<open>Stores built through the interface are layered\<close>

text \<open>
  The empty manager is layered, and so is every store that \<^verbatim>\<open>add_source\<close> with an evaluated
  literal, \<^verbatim>\<open>load_from_file\<close> of a JSON file, \<^verbatim>\<open>merge_contexts\<close> and \<^verbatim>\<open>get_context\<close> make from
  a layered one.
\<close>

lemma wf_heap_mono: "wf_heap lvl D h \<Longrightarrow> D \<le> D' \<Longrightarrow> wf_heap lvl D' h"
  unfolding wf_heap_def by (meson less_le_trans)

lemma grows_refl: "grows lvl h lvl h"
  by (simp add: grows_def)

lemma grows_trans: "grows l1 h1 l2 h2 \<Longrightarrow> grows l2 h2 l3 h3 \<Longrightarrow> grows l1 h1 l3 h3"
  by (auto simp: grows_def)

lemma wf_heap_snoc:
  assumes wf: "wf_heap lvl D h" and d: "refs_at lvl h (Suc l) d"
  shows "wf_heap (lvl(length h := l)) (max D (Suc l)) (h @ [d])"
  unfolding wf_heap_def
proof (intro allI impI)
  fix a assume a: "a < length (h @ [d])"
  let ?lvl = "lvl(length h := l)" and ?D = "max D (Suc l)" and ?h = "h @ [d]"
  show "?lvl a < ?D \<and> distinct (map fst (?h ! a)) \<and>
        (\<forall>k b. map_of (?h ! a) k = Some (VDict b) \<longrightarrow> b < length ?h \<and> ?lvl b = Suc (?lvl a))"
  proof (cases "a = length h")
    case True
    have "\<And>k b. map_of d k = Some (VDict b) \<Longrightarrow> b < length ?h \<and> ?lvl b = Suc l"
    proof -
      fix k b assume m: "map_of d k = Some (VDict b)"
      have "b < length h \<and> lvl b = Suc l" using d m unfolding refs_at_def by blast
      then show "b < length ?h \<and> ?lvl b = Suc l" by simp
    qed
    then show ?thesis using True d by (simp add: refs_at_def)
  next
    case False
    then have a': "a < length h" using a by simp
    have cell: "?h ! a = h ! a" using a' by (simp add: nth_append)
    have refs: "\<And>k b. map_of (h ! a) k = Some (VDict b) \<Longrightarrow>
        b < length ?h \<and> ?lvl b = Suc (?lvl a)"
    proof -
      fix k b assume "map_of (h ! a) k = Some (VDict b)"
      then have "b < length h \<and> lvl b = Suc (lvl a)"
        using wf_heapD(3)[OF wf a'] by blast
      then show "b < length ?h \<and> ?lvl b = Suc (?lvl a)"
        using False by simp
    qed
    have "lvl a < ?D" using wf_heapD(1)[OF wf a'] by simp
    then show ?thesis
      using wf_heapD(2)[OF wf a'] False refs cell by simp
  qed
qed

lemma refs_at_update:
  assumes "refs_at lvl h l d" "\<And>b. v = VDict b \<Longrightarrow> b < length h \<and> lvl b = l"
  shows "refs_at lvl h l (AList.update k v d)"
  using assms by (auto simp: refs_at_def distinct_update update_conv' split: if_splits)

lemma refs_at_grows:
  assumes "refs_at lvl h l d" "grows lvl h lvl' h'"
  shows "refs_at lvl' h' l d"
  using assms unfolding refs_at_def grows_def by (metis less_le_trans)

lemma alloc_layered:
  "(\<forall>lvl D l. wf_heap lvl D h \<longrightarrow>
      (\<exists>lvl' D'. wf_heap lvl' D' (snd (alloc lit h)) \<and> D \<le> D' \<and>
         grows lvl h lvl' (snd (alloc lit h)) \<and>
         (\<forall>b. fst (alloc lit h) = VDict b \<longrightarrow>
            b < length (snd (alloc lit h)) \<and> lvl' b = l)))"
  "(\<forall>lvl D l. wf_heap lvl D h \<and> refs_at lvl h l acc \<longrightarrow>
      (\<exists>lvl' D'. wf_heap lvl' D' (snd (alloc_items kvs acc h)) \<and> D \<le> D' \<and>
         grows lvl h lvl' (snd (alloc_items kvs acc h)) \<and>
         refs_at lvl' (snd (alloc_items kvs acc h)) l (fst (alloc_items kvs acc h))))"
proof (induction lit h and kvs acc h rule: alloc_alloc_items.induct)
  case (6 kvs h)
  show ?case
  proof (intro allI impI)
    fix lvl D l assume wf: "wf_heap lvl D h"
    obtain d h1 where al: "alloc_items kvs [] h = (d, h1)" by (cases "alloc_items kvs [] h")
    have "refs_at lvl h (Suc l) []" by (simp add: refs_at_def)
    then obtain lvl1 D1 where s: "wf_heap lvl1 D1 h1" "D \<le> D1" "grows lvl h lvl1 h1"
        "refs_at lvl1 h1 (Suc l) d"
      using 6 wf al by (metis fst_conv snd_conv)
    let ?lvl = "lvl1(length h1 := l)" and ?D = "max D1 (Suc l)"
    have w: "wf_heap ?lvl ?D (h1 @ [d])" using wf_heap_snoc[OF s(1,4)] .
    have g: "grows lvl h ?lvl (h1 @ [d])"
      using s(3) by (auto simp: grows_def nth_append)
    have "D \<le> ?D" using s(2) by simp
    then show "\<exists>lvl' D'. wf_heap lvl' D' (snd (alloc (JDict kvs) h)) \<and> D \<le> D' \<and>
         grows lvl h lvl' (snd (alloc (JDict kvs) h)) \<and>
         (\<forall>b. fst (alloc (JDict kvs) h) = VDict b \<longrightarrow>
            b < length (snd (alloc (JDict kvs) h)) \<and> lvl' b = l)"
      using w g al by (intro exI[of _ ?lvl] exI[of _ ?D]) simp
  qed
next
  case (8 kv kvs acc h)
  show ?case
  proof (intro allI impI)
    fix lvl D l assume a: "wf_heap lvl D h \<and> refs_at lvl h l acc"
    obtain v h1 where al: "alloc (snd kv) h = (v, h1)" by (cases "alloc (snd kv) h")
    obtain lvl1 D1 where s: "wf_heap lvl1 D1 h1" "D \<le> D1" "grows lvl h lvl1 h1"
        "\<forall>b. v = VDict b \<longrightarrow> b < length h1 \<and> lvl1 b = l"
      using 8(1) a al by (metis fst_conv snd_conv)
    have r: "refs_at lvl1 h1 l (AList.update (fst kv) v acc)"
      using refs_at_update[OF refs_at_grows[OF _ s(3)]] a s(4) by blast
    obtain lvl2 D2 where t:
        "wf_heap lvl2 D2 (snd (alloc_items kvs (AList.update (fst kv) v acc) h1))" "D1 \<le> D2"
        "grows lvl1 h1 lvl2 (snd (alloc_items kvs (AList.update (fst kv) v acc) h1))"
        "refs_at lvl2 (snd (alloc_items kvs (AList.update (fst kv) v acc) h1)) l
           (fst (alloc_items kvs (AList.update (fst kv) v acc) h1))"
      using 8(2)[OF al[symmetric]] s(1) r by blast
    have "D \<le> D2" using s(2) t(2) by simp
    then show "\<exists>lvl' D'. wf_heap lvl' D' (snd (alloc_items (kv # kvs) acc h)) \<and> D \<le> D' \<and>
         grows lvl h lvl' (snd (alloc_items (kv # kvs) acc h)) \<and>
         refs_at lvl' (snd (alloc_items (kv # kvs) acc h)) l (fst (alloc_items (kv # kvs) acc h))"
      using t(1,3,4) grows_trans[OF s(3) t(3)] al
      by (intro exI[of _ lvl2] exI[of _ D2]) simp
  qed
qed (auto intro: grows_refl)


lemma init_layered: "wf_store (\<lambda>a. 0) 1 (init [])"
  by (simp add: wf_store_def wf_heap_def init_def)

lemma add_alloc_layered:
  assumes wf: "wf_store lvl D st" and al: "alloc lit (heap st) = (c, h1)"
    and ad: "add_source (st\<lparr>heap := h1\<rparr>) nm c prio stype meta = Inr st'"
  shows "\<exists>lvl' D'. wf_store lvl' D' st'"
proof -
  have wfh: "wf_heap lvl D (heap st)" and ctx: "context_ref st < length (heap st)"
      "lvl (context_ref st) = 0"
    and srcs: "\<forall>s\<in>set (sources st). content s < length (heap st) \<and> lvl (content s) = 0"
    using wf by (simp_all add: wf_store_def)
  obtain a where c: "c = VDict a"
    using ad by (cases c) (simp_all add: add_source_def)
  obtain lvl1 D1 where s: "wf_heap lvl1 D1 h1" "grows lvl (heap st) lvl1 h1"
      "a < length h1" "lvl1 a = 0"
    using alloc_layered(1)[of "heap st" lit] wfh al c by (metis fst_conv snd_conv)
  let ?lvl = "lvl1(length h1 := 0)" and ?D = "max D1 (Suc 0)"
  have st': "st' = st\<lparr>heap := h1 @ [h1 ! a],
                 sources := sources st @
                 [\<lparr>name = nm, content = length h1, priority = prio,
                   source_type = stype, metadata = meta\<rparr>]\<rparr>"
    using ad c by (simp add: add_source_def)
  have "refs_at lvl1 h1 (Suc 0) (h1 ! a)"
    unfolding refs_at_def using wf_heapD(2,3)[OF s(1,3)] s(4) by auto
  then have w: "wf_heap ?lvl ?D (h1 @ [h1 ! a])"
    using wf_heap_snoc[OF s(1)] by blast
  have old: "\<forall>b<length (heap st). b < length h1 \<and> ?lvl b = lvl b"
    using s(2) by (auto simp: grows_def)
  have "wf_store ?lvl ?D st'"
    unfolding wf_store_def st' using w ctx srcs old by auto
  then show ?thesis by blast
qed

lemma add_literal_layered:
  assumes "wf_store lvl D st"
  shows "\<exists>lvl' D'. wf_store lvl' D' (add_literal nm lit prio st)"
proof -
  obtain c h1 where al: "alloc lit (heap st) = (c, h1)" by (cases "alloc lit (heap st)")
  show ?thesis
  proof (cases "add_source (st\<lparr>heap := h1\<rparr>) nm c prio ''unknown'' []")
    case (Inl e)
    then show ?thesis using assms al by (auto simp: add_literal_def)
  next
    case (Inr st')
    then show ?thesis
      using add_alloc_layered[OF assms al Inr] al by (simp add: add_literal_def)
  qed
qed

lemma load_json_layered:
  assumes "wf_store lvl D st" "lower (path_suffix p) = ''.json''"
    "load_from_file env st p prio = Inr st'"
  shows "\<exists>lvl' D'. wf_store lvl' D' st'"
proof -
  have b: "load_body env st p prio = Inr st'"
    using assms(3) by (auto simp: load_from_file_def split: sum.splits bool.splits)
  have "\<exists>lit c h1. alloc lit (heap st) = (c, h1) \<and>
          add_source (st\<lparr>heap := h1\<rparr>) (path_name p) c prio ''file''
            [(''path'', JStr (absolute env p))] = Inr st'"
    using b assms(2) unfolding load_body_def Let_def
    by (auto split: sum.splits prod.splits)
  then obtain lit c h1 where al: "alloc lit (heap st) = (c, h1)"
    and ad: "add_source (st\<lparr>heap := h1\<rparr>) (path_name p) c prio ''file''
            [(''path'', JStr (absolute env p))] = Inr st'"
    by blast
  show ?thesis
    using add_alloc_layered[OF assms(1) al ad] .
qed

lemma get_context_layered:
  assumes "wf_store lvl D st" "D \<le> fuel" "get_context fuel st key dflt = Inr (v, st')"
  shows "\<exists>lvl'. wf_store lvl' D st'"
proof (cases "heap st ! context_ref st = []")
  case True
  obtain st1 where st1: "merge_contexts fuel st = Inr (length (heap st), st1)"
      "wf_store (lvl(length (heap st) := 0)) D st1"
    using merge_contexts_ok[OF assms(1,2)] by blast
  have "st' = st1"
    using assms(3) True st1(1)
    by (auto simp: get_context_def split: option.splits sum.splits if_splits)
  then show ?thesis using st1(2) by blast
next
  case False
  have "st' = st"
    using assms(3) False
    by (auto simp: get_context_def split: option.splits sum.splits if_splits)
  then show ?thesis using assms(1) by blast
qed

subsection \<open>Lookups, stable sorting and the example stores\<close>

lemma both_dicts_scalar: "\<not> is_dict v \<Longrightarrow> both_dicts old v = None"
  by (cases "(old, v)" rule: both_dicts.cases) auto

lemma foldl_merged_entry_filter:
  "foldl (\<lambda>old s. merged_entry old (g s)) old xs =
   foldl (\<lambda>old s. merged_entry old (g s)) old (filter (\<lambda>s. g s \<noteq> None) xs)"
  by (induction xs arbitrary: old) auto

lemma filter_sort_key_same_key:
  assumes "\<forall>x\<in>set xs. P x \<longrightarrow> f x = c"
  shows "filter P (sort_key f xs) = filter P xs"
proof -
  have "filter P (sort_key f xs) = filter P (filter (\<lambda>y. f y = c) (sort_key f xs))"
    using assms by (auto simp: filter_filter intro!: filter_cong)
  also have "\<dots> = filter P (filter (\<lambda>y. f y = c) xs)"
    by (simp only: sort_key_stable)
  also have "\<dots> = filter P xs"
    using assms by (auto simp: filter_filter intro!: filter_cong)
  finally show ?thesis .
qed

lemma walk_misses: "(\<exists>e. walk h v ks = Inl e) \<longleftrightarrow> path_misses h v ks"
  by (induction h v ks rule: walk.induct) (auto split: option.splits)

lemma walk_error_kinds: "walk h v ks = Inl e \<Longrightarrow> e = KeyError \<or> e = TypeError"
  by (induction h v ks rule: walk.induct) (auto split: option.splits)

lemma alloc_non_dict:
  "\<forall>kvs. lit \<noteq> JDict kvs \<Longrightarrow> \<not> is_dict (fst (alloc lit h))"
  by (cases lit) auto

lemma add_source_non_dict:
  "\<not> is_dict c \<Longrightarrow> add_source st nm c prio stype meta = Inl (ValidationError c)"
  by (cases c) (auto simp: add_source_def)

lemma add_source_raises:
  "add_source st nm c prio stype meta = Inl e \<Longrightarrow> e = ValidationError c"
  by (cases c) (auto simp: add_source_def)

lemma load_body_raises:
  assumes "load_body env st p prio = Inl e"
  shows "(\<exists>m. e = OSError m \<or> e = DecodeError m \<or> e = ValueError m) \<or>
         (\<exists>v. e = ValidationError v)"
  using assms unfolding load_body_def Let_def
  by (auto split: if_splits sum.splits prod.splits dest: add_source_raises)

lemma wf_store_tie: "wf_store (\<lambda>a. 0) 1 store_tie"
  by (simp add: wf_store_def wf_heap_def store_tie_def add_literal_def init_def add_source_def
      All_less_Suc nth_Cons' eval_nat_numeral)

lemma wf_store_x: "wf_store (\<lambda>a. 0) 1 store_x"
  by (simp add: wf_store_def wf_heap_def store_x_def add_literal_def init_def add_source_def
      All_less_Suc nth_Cons' eval_nat_numeral)

subsection \<open>What holds on layered stores\<close>

text \<open>
  Among fragments of one priority the one added last decides a key that it binds to a
  value that is not a mapping, when no fragment of another priority binds that key.
\<close>

lemma tied_later_fragment_wins:
  assumes wf: "wf_store lvl D st" and fuel: "D \<le> fuel"
    and order: "sources st = pre @ A # mid @ B # post"
    and tie: "priority A = priority B"
    and a: "map_of (heap st ! content A) k = Some va" "\<not> is_dict va"
    and b: "map_of (heap st ! content B) k = Some vb" "\<not> is_dict vb"
    and earlier: "\<forall>s\<in>set (pre @ mid).
                    map_of (heap st ! content s) k \<noteq> None \<longrightarrow> priority s = priority B"
    and later: "\<forall>s\<in>set post. map_of (heap st ! content s) k = None"
  shows "merge_lookup fuel st [k] = Inr vb"
proof -
  let ?g = "\<lambda>s. map_of (heap st ! content s) k"
  let ?P = "\<lambda>s. ?g s \<noteq> None"
  let ?step = "\<lambda>old s. merged_entry old (?g s)"
  obtain st' where st': "merge_contexts fuel st = Inr (length (heap st), st')"
      "context_ref st' = length (heap st)"
      "\<forall>k. map_of (heap st' ! context_ref st') k = top_level (heap st) k (sorted_sources st)"
    using merge_contexts_ok[OF wf fuel] by blast
  have same_key: "\<forall>x\<in>set (sources st). ?P x \<longrightarrow> - priority x = - priority B"
    using order tie earlier later by auto
  have "filter ?P (sorted_sources st) = filter ?P (sources st)"
    unfolding sorted_sources_def using filter_sort_key_same_key[OF same_key] .
  also have "\<dots> = (filter ?P pre @ A # filter ?P mid) @ [B]"
    using order a(1) b(1) later by simp
  finally have flt: "filter ?P (sorted_sources st) = (filter ?P pre @ A # filter ?P mid) @ [B]" .
  have "top_level (heap st) k (sorted_sources st) =
      foldl ?step None (filter ?P (sorted_sources st))"
    unfolding top_level_def by (rule foldl_merged_entry_filter)
  also have "\<dots> = merged_entry (foldl ?step None (filter ?P pre @ A # filter ?P mid)) (?g B)"
    unfolding flt by (simp only: foldl_append foldl.simps)
  also have "\<dots> = Some vb"
    using b both_dicts_scalar[OF b(2)] by simp
  finally have "map_of (heap st' ! length (heap st)) k = Some vb"
    using st'(2,3) by simp
  then show ?thesis
    using st'(1) by (simp add: merge_lookup_def)
qed

text \<open>
  On a layered store, with recursion depth for its nesting, \<^verbatim>\<open>get_context\<close> with a path
  returns: the default when the path misses the context, the value at the end of the walk
  otherwise.
\<close>

lemma get_context_path_on_layered:
  assumes wf: "wf_store lvl D st" and fuel: "D \<le> fuel"
  shows "\<exists>v st'. get_context fuel st (Some path) dflt = Inr (v, st') \<and>
           (if heap st ! context_ref st = []
            then merge_contexts fuel st = Inr (context_ref st', st')
            else st' = st) \<and>
           (path_misses (heap st') (VDict (context_ref st')) (split_dot path) \<longrightarrow> v = dflt) \<and>
           (\<not> path_misses (heap st') (VDict (context_ref st')) (split_dot path) \<longrightarrow>
              walk (heap st') (VDict (context_ref st')) (split_dot path) = Inr v)"
proof -
  obtain st1 where st1:
      "(if heap st ! context_ref st = []
        then map_sum id snd (merge_contexts fuel st) else Inr st) = Inr st1"
      "if heap st ! context_ref st = []
       then merge_contexts fuel st = Inr (context_ref st1, st1) else st1 = st"
  proof (cases "heap st ! context_ref st = []")
    case True
    obtain st' where "merge_contexts fuel st = Inr (length (heap st), st')"
        "context_ref st' = length (heap st)"
      using merge_contexts_ok[OF wf fuel] by blast
    then show ?thesis using True that[of st'] by simp
  next
    case False
    then show ?thesis using that[of st] by simp
  qed
  let ?w = "walk (heap st1) (VDict (context_ref st1)) (split_dot path)"
  show ?thesis
  proof (cases ?w)
    case (Inl e)
    then have miss: "path_misses (heap st1) (VDict (context_ref st1)) (split_dot path)"
      using walk_misses by blast
    have "e = KeyError \<or> e = TypeError" using walk_error_kinds[OF Inl] .
    then have "get_context fuel st (Some path) dflt = Inr (dflt, st1)"
      using st1(1) Inl by (auto simp: get_context_def)
    then show ?thesis using st1(2) miss by blast
  next
    case (Inr v)
    then have nomiss: "\<not> path_misses (heap st1) (VDict (context_ref st1)) (split_dot path)"
      using walk_misses[of "heap st1" "VDict (context_ref st1)" "split_dot path"] by simp
    have "get_context fuel st (Some path) dflt = Inr (v, st1)"
      using st1(1) Inr by (simp add: get_context_def)
    then show ?thesis using st1(2) nomiss Inr by blast
  qed
qed

lemma get_context_returns_on_layered:
  assumes wf: "wf_store lvl D st" and fuel: "D \<le> fuel"
  shows "\<exists>v st'. get_context fuel st key dflt = Inr (v, st')"
proof (cases key)
  case None
  show ?thesis
  proof (cases "heap st ! context_ref st = []")
    case True
    obtain st' where "merge_contexts fuel st = Inr (length (heap st), st')"
      using merge_contexts_ok[OF wf fuel] by blast
    then show ?thesis using None True by (simp add: get_context_def)
  next
    case False
    then show ?thesis using None by (simp add: get_context_def)
  qed
next
  case (Some path)
  then show ?thesis using get_context_path_on_layered[OF wf fuel, of path dflt] by blast
qed

section \<open>The claims of the spec on the code\<close>

text \<open>
  C1. The spec: with A = {"k": "A"} at priority 10 and B = {"k": "B"} at priority 1,
  added in either order, the merged mapping binds k to "A". The code sorts by descending
  priority and lets each later source overwrite, so the lowest priority is merged last:
  in both orders k is bound to "B".
\<close>

theorem merge_lowest_priority_wins:
  "merge_lookup 3 store_AB [''k''] = Inr (VStr ''B'') \<and>
   merge_lookup 3 store_BA [''k''] = Inr (VStr ''B'')"
  by code_simp

text \<open>
  C2. The spec: source1 = {"a": {"b": 1}} at priority 0 and source2 = {"a": 5} at
  priority 10 merge to {"a": 5}. The code merges source2 first and source1 last, and the
  result is {"a": {"b": 1}}.
\<close>

theorem merge_mapping_replaces_higher_scalar:
  "map_option fst (merge_value 3 store_scalar_over_mapping) =
     Some (Some (JDict [(''a'', JDict [(''b'', JInt 1)])]))"
  by code_simp

text \<open>
  C3. The spec: of two fragments of equal priority that both bind a leaf key, the one added
  later decides it, in every store. On the spec's example, A = {"k": "A"} then
  B = {"k": "B"} at priority 5, the code gives "B". With a third fragment L = {"k": "L"} at
  priority 1 in the store, which both A and B outrank, the code gives "L", the value of
  neither tied fragment, at the top level and under a nested key alike: the lowest
  priority is merged last.
\<close>

theorem tie_loses_to_lower_priority:
  "merge_lookup 3 store_tie [''k''] = Inr (VStr ''B'') \<and>
   merge_lookup 3 store_tie_low [''k''] = Inr (VStr ''L'') \<and>
   merge_lookup 3 store_tie_low_nested [''c'', ''k''] = Inr (VStr ''L'')"
  by code_simp

text \<open>
  C4. The spec: merging never changes the stored content of a fragment. In the code the
  first source's nested dictionary is stored in the result by reference and the next
  source is merged into that same object: the content of the fragment "defaults", created
  as {"a": {"b": 1}}, is {"a": {"b": 1, "c": 2}} after the merge.
\<close>

theorem merge_mutates_fragment_content:
  "content_value 3 store_shared 0 = Some (JDict [(''a'', JDict [(''b'', JInt 1)])]) \<and>
   map_option (\<lambda>r. content_value 3 (snd r) 0) (merge_value 3 store_shared) =
     Some (Some (JDict [(''a'', JDict [(''b'', JInt 1), (''c'', JInt 2)])]))"
  by code_simp

text \<open>
  C5. The spec: a get after an addSource sees the merge of all fragments added so far. In
  the code \<^verbatim>\<open>add_source\<close> leaves \<^verbatim>\<open>self.context\<close> alone and \<^verbatim>\<open>get_context\<close> merges only
  when it is empty: after a first get, a source {"y": 2} is added and the next get of "y"
  returns the default, although the merge of the sources binds y to 2.
\<close>

theorem get_after_add_is_stale:
  "(case get_context 3 store_x None VNone of
      Inl e \<Rightarrow> None
    | Inr (v, st1) \<Rightarrow>
        Some (map_sum id fst
                (get_context 3 (add_literal ''second'' (JDict [(''y'', JInt 2)]) 0 st1)
                   (Some ''y'') VNone),
              merge_lookup 3 (add_literal ''second'' (JDict [(''y'', JInt 2)]) 0 st1)
                [''y''])) =
   Some (Inr VNone, Inr (VInt 2))"
  by code_simp

text \<open>
  C6. The spec: with "s" = {"theme": "dark"} at priority 0 and "override" =
  {"theme": "light"} at priority 10, get("theme") is "light", and "dark" after
  removeSource("override"). With the code's merge, get("theme") is "dark" already before
  the removal (the lowest priority is merged last); after the removal it is "dark".
\<close>

theorem theme_before_and_after_removal:
  "map_sum id fst (get_context 3 store_theme (Some ''theme'') VNone) = Inr (VStr ''dark'') \<and>
   map_sum id fst
     (get_context 3 (remove_source store_theme ''override'') (Some ''theme'') VNone) =
     Inr (VStr ''dark'')"
  by code_simp

text \<open>
  C7. The spec: two calls of merge() with no change of the fragment list in between return
  equal values. Four fragments bind a.j to nothing, to {"p": 1}, to 7 and to {"q": 2} at
  priorities 3, 2, 1, 0. The first merge returns {"a": {"j": {"q": 2}}} and leaves the
  first fragment's dictionary at a pointing to the last fragment's dictionary at a.j; the
  second merge then merges {"p": 1} into that dictionary and returns
  {"a": {"j": {"q": 2, "p": 1}}}.
\<close>

theorem merge_twice_differs:
  "(case merge_value 5 store_four of
      None \<Rightarrow> None
    | Some (r1, st1) \<Rightarrow> Some (r1, map_option fst (merge_value 5 st1))) =
   Some (Some (JDict [(''a'', JDict [(''j'', JDict [(''q'', JInt 2)])])]),
         Some (Some (JDict [(''a'', JDict [(''j'', JDict [(''q'', JInt 2), (''p'', JInt 1)])])])))"
  by code_simp

text \<open>
  C8. The spec: get never raises, whatever the path and the default. In the code the merge
  that \<^verbatim>\<open>get_context\<close> runs first stands outside its \<^verbatim>\<open>try\<close>. With s = {"j": {"q": 1}}, the
  content {"k": {"j": s}} at priority 1 and the content {"k": s} at priority 0, the merge
  iterates over s while it writes the key q into s through the alias kept from the first
  content, and \<^verbatim>\<open>get_context("k.j")\<close> raises \<^verbatim>\<open>RuntimeError\<close> (dictionary changed size during
  iteration); so does \<^verbatim>\<open>get_context()\<close>.
\<close>

theorem get_context_raises_on_shared_dict:
  "get_context 10 store_two_depths (Some ''k.j'') VNone = Inl RuntimeError \<and>
   get_context 10 store_two_depths None VNone = Inl RuntimeError"
  by code_simp



text \<open>
  C10. The spec: a file with an unsupported extension and a file that does not parse fail
  with two different kinds of error. In the code the \<^verbatim>\<open>ValueError\<close> for the unsupported
  extension is raised inside the \<^verbatim>\<open>try\<close> block and wrapped like every other exception:
  a text file and a malformed JSON file both fail with a \<^verbatim>\<open>ValueError\<close>.
\<close>

theorem unsupported_and_parse_errors_same_kind:
  "map_sum error_kind id (load_from_file env_files (init []) ''notes.txt'' 0) = Inl ''ValueError'' \<and>
   map_sum error_kind id (load_from_file env_files (init []) ''bad.json'' 0) = Inl ''ValueError''"
  by code_simp

text \<open>
  C10, as the code has it, for every file system, parser, store, path and priority. A path
  that does not exist gives a \<^verbatim>\<open>FileNotFoundError\<close>, a kind of its own. For a path that
  exists every failure is a \<^verbatim>\<open>ValueError\<close> whose message is "Failed to load context from",
  the path, and the text of the underlying error, which is kept whole: "Unsupported file
  format" and the suffix when the suffix is none of .json, .yaml, .yml; the message of the
  read when the file cannot be read; the parser's message when the JSON or YAML text does
  not parse; the validation message when the parsed top-level value is not a mapping.
  An error of the existence check itself leaves the method unwrapped.
\<close>

theorem load_from_file_error_kinds:
  "(path_exists env p = Inr False \<longrightarrow>
      load_from_file env st p prio = Inl (FileNotFoundError (''Context file not found: '' @ p))) \<and>
   (path_exists env p = Inr True \<and>
    lower (path_suffix p) \<notin> {''.json'', ''.yaml'', ''.yml''} \<longrightarrow>
      load_from_file env st p prio =
        Inl (ValueError (''Failed to load context from '' @ p @ '': '' @
                         ''Unsupported file format: '' @ path_suffix p))) \<and>
   (path_exists env p = Inr True \<and>
    lower (path_suffix p) \<in> {''.json'', ''.yaml'', ''.yml''} \<and>
    read_text env p = Inl detail \<longrightarrow>
      load_from_file env st p prio =
        Inl (ValueError (''Failed to load context from '' @ p @ '': '' @ detail))) \<and>
   (path_exists env p = Inr True \<and> lower (path_suffix p) = ''.json'' \<and>
    read_text env p = Inr body \<and> json_load env body = Inl detail \<longrightarrow>
      load_from_file env st p prio =
        Inl (ValueError (''Failed to load context from '' @ p @ '': '' @ detail))) \<and>
   (path_exists env p = Inr True \<and> lower (path_suffix p) \<in> {''.yaml'', ''.yml''} \<and>
    read_text env p = Inr body \<and> yaml_load env body (heap st) = Inl detail \<longrightarrow>
      load_from_file env st p prio =
        Inl (ValueError (''Failed to load context from '' @ p @ '': '' @ detail))) \<and>
   (path_exists env p = Inr True \<and> read_text env p = Inr body \<and>
    (lower (path_suffix p) = ''.json'' \<and> json_load env body = Inr lit \<and>
       alloc lit (heap st) = (c, h1) \<or>
     lower (path_suffix p) \<in> {''.yaml'', ''.yml''} \<and>
       yaml_load env body (heap st) = Inr (c, h1)) \<and>
    \<not> is_dict c \<longrightarrow>
      load_from_file env st p prio =
        Inl (ValueError (''Failed to load context from '' @ p @ '': '' @
                         validation_text env c))) \<and>
   (path_exists env p = Inr True \<and> load_from_file env st p prio = Inl e \<longrightarrow>
      (\<exists>d. e = ValueError (''Failed to load context from '' @ p @ '': '' @ d))) \<and>
   (path_exists env p = Inl detail \<longrightarrow>
      load_from_file env st p prio = Inl (OSError detail))"
proof (intro conjI impI)
  assume "path_exists env p = Inr False"
  then show "load_from_file env st p prio =
      Inl (FileNotFoundError (''Context file not found: '' @ p))"
    by (simp add: load_from_file_def)
next
  assume "path_exists env p = Inr True \<and>
    lower (path_suffix p) \<notin> {''.json'', ''.yaml'', ''.yml''}"
  then show "load_from_file env st p prio =
        Inl (ValueError (''Failed to load context from '' @ p @ '': '' @
                         ''Unsupported file format: '' @ path_suffix p))"
    by (simp add: load_from_file_def load_body_def Let_def)
next
  assume "path_exists env p = Inr True \<and>
    lower (path_suffix p) \<in> {''.json'', ''.yaml'', ''.yml''} \<and>
    read_text env p = Inl detail"
  then show "load_from_file env st p prio =
        Inl (ValueError (''Failed to load context from '' @ p @ '': '' @ detail))"
    by (auto simp: load_from_file_def load_body_def Let_def)
next
  assume "path_exists env p = Inr True \<and> lower (path_suffix p) = ''.json'' \<and>
    read_text env p = Inr body \<and> json_load env body = Inl detail"
  then show "load_from_file env st p prio =
        Inl (ValueError (''Failed to load context from '' @ p @ '': '' @ detail))"
    by (simp add: load_from_file_def load_body_def Let_def)
next
  assume "path_exists env p = Inr True \<and> lower (path_suffix p) \<in> {''.yaml'', ''.yml''} \<and>
    read_text env p = Inr body \<and> yaml_load env body (heap st) = Inl detail"
  then show "load_from_file env st p prio =
        Inl (ValueError (''Failed to load context from '' @ p @ '': '' @ detail))"
    by (auto simp: load_from_file_def load_body_def Let_def)
next
  assume a: "path_exists env p = Inr True \<and> read_text env p = Inr body \<and>
    (lower (path_suffix p) = ''.json'' \<and> json_load env body = Inr lit \<and>
       alloc lit (heap st) = (c, h1) \<or>
     lower (path_suffix p) \<in> {''.yaml'', ''.yml''} \<and>
       yaml_load env body (heap st) = Inr (c, h1)) \<and>
    \<not> is_dict c"
  then have nd: "\<not> is_dict c" by simp
  show "load_from_file env st p prio =
        Inl (ValueError (''Failed to load context from '' @ p @ '': '' @
                         validation_text env c))"
    using a add_source_non_dict[OF nd]
    by (auto simp: load_from_file_def load_body_def Let_def)
next
  assume a: "path_exists env p = Inr True \<and> load_from_file env st p prio = Inl e"
  then show "\<exists>d. e = ValueError (''Failed to load context from '' @ p @ '': '' @ d)"
    by (auto simp: load_from_file_def split: sum.splits)
next
  assume "path_exists env p = Inl detail"
  then show "load_from_file env st p prio = Inl (OSError detail)"
    by (simp add: load_from_file_def)
qed

theorem load_from_file_error_kinds_witness:
  "load_from_file env_files (init []) ''missing.json'' 0 =
     Inl (FileNotFoundError ''Context file not found: missing.json'') \<and>
   load_from_file env_files (init []) ''notes.txt'' 0 =
     Inl (ValueError ''Failed to load context from notes.txt: Unsupported file format: .txt'') \<and>
   load_from_file env_files (init []) ''locked.json'' 0 =
     Inl (ValueError ''Failed to load context from locked.json: [Errno 13] Permission denied'') \<and>
   load_from_file env_files (init []) ''bad.json'' 0 =
     Inl (ValueError (''Failed to load context from bad.json: '' @
       ''Expecting property name enclosed in double quotes: line 1 column 2 (char 1)'')) \<and>
   load_from_file env_files (init []) ''list.json'' 0 =
     Inl (ValueError (''Failed to load context from list.json: '' @
       validation_text env_files (VList [JInt 1]))) \<and>
   load_from_file env_files (init []) (replicate 300 CHR ''x'') 0 =
     Inl (OSError ''[Errno 36] File name too long'')"
proof -
  have s1: "path_suffix ''notes.txt'' = ''.txt''" "lower ''.txt'' = ''.txt''"
    "path_suffix ''bad.json'' = ''.json''" "path_suffix ''list.json'' = ''.json''"
    "path_suffix ''locked.json'' = ''.json''" "lower ''.json'' = ''.json''"
    by code_simp+
  have x: "path_exists env_files ''missing.json'' = Inr False"
    "path_exists env_files ''notes.txt'' = Inr True"
    "path_exists env_files ''bad.json'' = Inr True"
    "path_exists env_files ''list.json'' = Inr True"
    "path_exists env_files ''locked.json'' = Inr True"
    by code_simp+
  have long: "path_exists env_files (replicate 300 CHR ''x'') =
      Inl ''[Errno 36] File name too long''"
    by (simp add: env_files_def)
  have f: "read_text env_files ''locked.json'' = Inl ''[Errno 13] Permission denied''"
    "read_text env_files ''bad.json'' = Inr ''{''"
    "read_text env_files ''list.json'' = Inr ''[1]''"
    "json_load env_files ''{'' =
       Inl ''Expecting property name enclosed in double quotes: line 1 column 2 (char 1)''"
    "json_load env_files ''[1]'' = Inr (JList [JInt 1])"
    by (simp_all add: env_files_def)
  have al: "alloc (JList [JInt 1]) (heap (init [])) = (VList [JInt 1], heap (init []))"
    by simp
  show ?thesis
    using load_from_file_error_kinds[where env=env_files and p="''missing.json''"
        and st="init []" and prio=0]
      load_from_file_error_kinds[where env=env_files and p="''notes.txt''"
        and st="init []" and prio=0]
      load_from_file_error_kinds[where env=env_files and p="''locked.json''"
        and detail="''[Errno 13] Permission denied''" and st="init []" and prio=0]
      load_from_file_error_kinds[where env=env_files and p="''bad.json''" and body="''{''"
        and detail="''Expecting property name enclosed in double quotes: line 1 column 2 (char 1)''"
        and st="init []" and prio=0]
      load_from_file_error_kinds[where env=env_files and p="''list.json''" and body="''[1]''"
        and lit="JList [JInt 1]" and c="VList [JInt 1]" and ?h1.0="heap (init [])"
        and st="init []" and prio=0]
      load_from_file_error_kinds[where env=env_files and p="replicate 300 CHR ''x''"
        and detail="''[Errno 36] File name too long''" and st="init []" and prio=0]
    by (simp add: s1 x long f al)
qed

end
